theory Spec2Isabelle
  imports Main "HOL-Library.Multiset"
begin

section \<open>The binary search tree of hw09.h\<close>

text \<open>
  \<^verbatim>\<open>cppclass::BinarySearchTree<T>\<close> owns a tree of heap nodes
  \<^verbatim>\<open>struct Node { T data; Node *right; Node *left; }\<close> through \<^verbatim>\<open>m_root\<close> and counts
  them in \<^verbatim>\<open>m_size\<close>. Every node has exactly one incoming link (its parent's, or
  \<^verbatim>\<open>m_root\<close>), so the heap below a link is a tree and a link is modelled by the tree
  it leads to. A link has three states in the code: the null pointer, a pointer to a live
  node, and a pointer whose node has been released with \<^verbatim>\<open>delete\<close> while the link
  itself was left as it was. The third state is kept in the model: reading a field through
  such a link is undefined behaviour in C++, and is an error value here.
  No operation of the class copies a link: the copy constructor inserts values into a new
  tree, the move constructor clears the source, and no assignment operator is defined.

  The element type \<open>T\<close> is compared with \<open><\<close>, \<open>>\<close>, \<open>\<le>\<close>, \<open>\<ge>\<close> and \<open>\<noteq>\<close>; it is
  taken to be a linear order.
\<close>

datatype 'a node_ptr =
    nullptr
  | Dangling
  | Node 'a "'a node_ptr" "'a node_ptr"
  \<comment> \<open>\<open>Node data right left\<close>, the fields in the order of the struct\<close>

datatype error = UseAfterFree | NullDereference | OutOfRange

text \<open>
  \<^verbatim>\<open>m_size\<close> is a \<^verbatim>\<open>size_t\<close>. It is incremented once for every node
  allocated, and a tree cannot hold as many live nodes as \<^verbatim>\<open>size_t\<close> has values, so
  \<^verbatim>\<open>m_size++\<close> never wraps and the counter is a natural number here. \<^verbatim>\<open>m_size--\<close>
  at zero would wrap; that is written out in \<open>decrement\<close>.
\<close>

record 'a BinarySearchTree =
  m_root :: "'a node_ptr"
  m_size :: nat

definition decrement :: "nat \<Rightarrow> nat" where
  "decrement n = (if n = 0 then 2 ^ 64 - 1 else n - 1)"

subsection \<open>Constructors that do not visit nodes\<close>

definition empty_tree :: "'a BinarySearchTree" where
  "empty_tree = \<lparr>m_root = nullptr, m_size = 0\<rparr>"

text \<open>
  The move constructor returns the new tree and what is left of \<open>other\<close>.
\<close>

definition move_construct ::
  "'a BinarySearchTree \<Rightarrow> 'a BinarySearchTree \<times> 'a BinarySearchTree" where
  "move_construct other =
     (\<lparr>m_root = m_root other, m_size = m_size other\<rparr>, \<lparr>m_root = nullptr, m_size = 0\<rparr>)"

subsection \<open>insert\<close>

text \<open>
  The \<^verbatim>\<open>while (current)\<close> loop of \<^verbatim>\<open>insert\<close>, started at \<open>current\<close>. It returns the
  result of \<^verbatim>\<open>insert\<close> and the tree below \<open>current\<close> as the loop leaves it.
\<close>

fun insert_loop :: "'a::linorder \<Rightarrow> 'a node_ptr \<Rightarrow> error + (bool \<times> 'a node_ptr)" where
  "insert_loop val nullptr = Inr (False, nullptr)"
| "insert_loop val Dangling = Inl UseAfterFree"
| "insert_loop val (Node d r l) =
     (if val > d then
        (if r = nullptr then Inr (True, Node d (Node val nullptr nullptr) l)
         else (case insert_loop val r of
                 Inl e \<Rightarrow> Inl e
               | Inr (b, r') \<Rightarrow> Inr (b, Node d r' l)))
      else if val < d then
        (if l = nullptr then Inr (True, Node d r (Node val nullptr nullptr))
         else (case insert_loop val l of
                 Inl e \<Rightarrow> Inl e
               | Inr (b, l') \<Rightarrow> Inr (b, Node d r l')))
      else Inr (False, Node d r l))"

definition insert_bst ::
  "'a::linorder \<Rightarrow> 'a BinarySearchTree \<Rightarrow> error + (bool \<times> 'a BinarySearchTree)" where
  "insert_bst val t =
     (if m_size t = 0 then
        Inr (True, \<lparr>m_root = Node val nullptr nullptr, m_size = m_size t + 1\<rparr>)
      else (case insert_loop val (m_root t) of
              Inl e \<Rightarrow> Inl e
            | Inr (b, p) \<Rightarrow>
                Inr (b, \<lparr>m_root = p, m_size = (if b then m_size t + 1 else m_size t)\<rparr>)))"

subsection \<open>contains and size\<close>

fun contains_loop :: "'a::linorder node_ptr \<Rightarrow> 'a \<Rightarrow> error + bool" where
  "contains_loop nullptr val = Inr False"
| "contains_loop Dangling val = Inl UseAfterFree"
| "contains_loop (Node d r l) val =
     (if d > val then contains_loop l val
      else if d < val then contains_loop r val
      else Inr True)"

definition contains :: "'a::linorder BinarySearchTree \<Rightarrow> 'a \<Rightarrow> error + bool" where
  "contains t val = contains_loop (m_root t) val"

definition size_bst :: "'a BinarySearchTree \<Rightarrow> nat" where
  "size_bst t = m_size t"

subsection \<open>remove\<close>

text \<open>
  The right-hand branch of \<^verbatim>\<open>remove\<close> after its first test: \<open>current\<close> is a node whose
  left link is not null. The loop \<^verbatim>\<open>while (current->left->left)\<close> walks to the parent
  of the leftmost node; that node's data is returned (it is stored in the target), the node
  is deleted, and \<^verbatim>\<open>current->left\<close> is assigned only when the deleted node had a right
  child. In the other branch the source deletes the node and leaves \<^verbatim>\<open>current->left\<close>
  pointing at it.
\<close>

fun splice_min :: "'a node_ptr \<Rightarrow> error + ('a \<times> 'a node_ptr)" where
  "splice_min nullptr = Inl NullDereference"
| "splice_min Dangling = Inl UseAfterFree"
| "splice_min (Node d r nullptr) = Inl NullDereference"
| "splice_min (Node d r Dangling) = Inl UseAfterFree"
| "splice_min (Node d r (Node ld lr ll)) =
     (if ll \<noteq> nullptr then
        (case splice_min (Node ld lr ll) of
           Inl e \<Rightarrow> Inl e
         | Inr (m, l') \<Rightarrow> Inr (m, Node d r l'))
      else if lr \<noteq> nullptr then Inr (ld, Node d r lr)
      else Inr (ld, Node d r Dangling))"

text \<open>The mirror image, for a target with a left child only.\<close>

fun splice_max :: "'a node_ptr \<Rightarrow> error + ('a \<times> 'a node_ptr)" where
  "splice_max nullptr = Inl NullDereference"
| "splice_max Dangling = Inl UseAfterFree"
| "splice_max (Node d nullptr l) = Inl NullDereference"
| "splice_max (Node d Dangling l) = Inl UseAfterFree"
| "splice_max (Node d (Node rd rr rl) l) =
     (if rr \<noteq> nullptr then
        (case splice_max (Node rd rr rl) of
           Inl e \<Rightarrow> Inl e
         | Inr (m, r') \<Rightarrow> Inr (m, Node d r' l))
      else if rl \<noteq> nullptr then Inr (rd, Node d rl l)
      else Inr (rd, Node d Dangling l))"

text \<open>
  What \<^verbatim>\<open>remove\<close> does once \<open>target\<close> is found. The result is what the link that led
  to the target leads to afterwards. A target without children is deleted and nothing is
  assigned to the link (neither the parent's field nor \<^verbatim>\<open>m_root\<close>), so the link
  dangles.
\<close>

fun remove_target :: "'a node_ptr \<Rightarrow> error + 'a node_ptr" where
  "remove_target nullptr = Inl NullDereference"
| "remove_target Dangling = Inl UseAfterFree"
| "remove_target (Node d r l) =
     (case r of
        Node rd rr rl \<Rightarrow>
          (if rl = nullptr then Inr (Node rd rr l)
           else (case splice_min r of
                   Inl e \<Rightarrow> Inl e
                 | Inr (m, r') \<Rightarrow> Inr (Node m r' l)))
      | Dangling \<Rightarrow> Inl UseAfterFree
      | nullptr \<Rightarrow>
          (case l of
             Node ld lr ll \<Rightarrow>
               (if lr = nullptr then Inr (Node ld r ll)
                else (case splice_max l of
                        Inl e \<Rightarrow> Inl e
                      | Inr (m, l') \<Rightarrow> Inr (Node m r l')))
           | Dangling \<Rightarrow> Inl UseAfterFree
           | nullptr \<Rightarrow> Inr Dangling))"

text \<open>
  The search loop of \<^verbatim>\<open>remove\<close> followed by the removal at the target; \<open>False\<close> when
  the search ends at the null pointer.
\<close>

fun remove_loop :: "'a::linorder \<Rightarrow> 'a node_ptr \<Rightarrow> error + (bool \<times> 'a node_ptr)" where
  "remove_loop val nullptr = Inr (False, nullptr)"
| "remove_loop val Dangling = Inl UseAfterFree"
| "remove_loop val (Node d r l) =
     (if d > val then
        (case remove_loop val l of
           Inl e \<Rightarrow> Inl e
         | Inr (b, l') \<Rightarrow> Inr (b, Node d r l'))
      else if d < val then
        (case remove_loop val r of
           Inl e \<Rightarrow> Inl e
         | Inr (b, r') \<Rightarrow> Inr (b, Node d r' l))
      else (case remove_target (Node d r l) of
              Inl e \<Rightarrow> Inl e
            | Inr p \<Rightarrow> Inr (True, p)))"

definition remove_bst ::
  "'a::linorder \<Rightarrow> 'a BinarySearchTree \<Rightarrow> error + (bool \<times> 'a BinarySearchTree)" where
  "remove_bst val t =
     (case remove_loop val (m_root t) of
        Inl e \<Rightarrow> Inl e
      | Inr (b, p) \<Rightarrow>
          Inr (b, \<lparr>m_root = p, m_size = (if b then decrement (m_size t) else m_size t)\<rparr>))"

subsection \<open>Equality\<close>

fun prefix_comp :: "'a node_ptr \<Rightarrow> 'a node_ptr \<Rightarrow> error + bool" where
  "prefix_comp nullptr nullptr = Inr True"
| "prefix_comp nullptr other_curr = Inr False"
| "prefix_comp self_curr nullptr = Inr False"
| "prefix_comp Dangling other_curr = Inl UseAfterFree"
| "prefix_comp self_curr Dangling = Inl UseAfterFree"
| "prefix_comp (Node d r l) (Node d' r' l') =
     (if d \<noteq> d' then Inr False
      else (case prefix_comp l l' of
              Inl e \<Rightarrow> Inl e
            | Inr False \<Rightarrow> Inr False
            | Inr True \<Rightarrow> prefix_comp r r'))"

definition equals :: "'a BinarySearchTree \<Rightarrow> 'a BinarySearchTree \<Rightarrow> error + bool" where
  "equals t other = prefix_comp (m_root t) (m_root other)"

text \<open>
  The private members \<^verbatim>\<open>isValid\<close> and \<^verbatim>\<open>isValid_helper\<close> are not embedded. Nothing
  calls them, and the recursive calls of the helper pass \<^verbatim>\<open>node->data\<close>, a \<open>T\<close>, for
  the parameters \<^verbatim>\<open>const T *min\<close> and \<^verbatim>\<open>const T *max\<close>, so the member cannot be
  instantiated at an element type such as \<^verbatim>\<open>int\<close>. The ordering invariant is stated
  on the tree itself, below.
\<close>

subsection \<open>Copy and bulk construction\<close>

fun prefix_insert ::
  "'a::linorder node_ptr \<Rightarrow> 'a BinarySearchTree \<Rightarrow> error + 'a BinarySearchTree" where
  "prefix_insert nullptr s = Inr s"
| "prefix_insert Dangling s = Inl UseAfterFree"
| "prefix_insert (Node d r l) s =
     (case insert_bst d s of
        Inl e \<Rightarrow> Inl e
      | Inr (b, s1) \<Rightarrow>
          (case prefix_insert l s1 of
             Inl e \<Rightarrow> Inl e
           | Inr s2 \<Rightarrow> prefix_insert r s2))"

definition copy_construct ::
  "'a::linorder BinarySearchTree \<Rightarrow> error + 'a BinarySearchTree" where
  "copy_construct other = prefix_insert (m_root other) \<lparr>m_root = nullptr, m_size = 0\<rparr>"

text \<open>
  \<^verbatim>\<open>bisection_insert\<close> on the sorted vector. \<^verbatim>\<open>arr[midpoint]\<close> outside the vector is
  undefined behaviour and an error here. The indices are \<^verbatim>\<open>size_t\<close>; the sum
  \<^verbatim>\<open>lower + upper\<close> is at most twice the length of a vector and does not wrap.
\<close>

function bisection_insert ::
  "'a::linorder list \<Rightarrow> nat \<Rightarrow> nat \<Rightarrow> 'a BinarySearchTree \<Rightarrow> error + 'a BinarySearchTree" where
  "bisection_insert arr lower upper s =
     (if lower \<ge> upper then Inr s
      else (let midpoint = (lower + upper) div 2 in
        if midpoint \<ge> length arr then Inl OutOfRange
        else (case insert_bst (arr ! midpoint) s of
                Inl e \<Rightarrow> Inl e
              | Inr (b, s1) \<Rightarrow>
                  (case bisection_insert arr lower midpoint s1 of
                     Inl e \<Rightarrow> Inl e
                   | Inr s2 \<Rightarrow> bisection_insert arr (midpoint + 1) upper s2))))"
  by pat_completeness auto
termination
  by (relation "measure (\<lambda>(arr, lower, upper, s). upper - lower)") auto

declare bisection_insert.simps [simp del]

text \<open>
  The constructor from an array of \<open>size\<close> elements: the array is the list \<open>arr\<close> and
  \<open>size\<close> is its length. \<^verbatim>\<open>std::sort\<close> leaves the elements in ascending order.
\<close>

definition array_construct :: "'a::linorder list \<Rightarrow> error + 'a BinarySearchTree" where
  "array_construct arr =
     bisection_insert (sort arr) 0 (length arr) \<lparr>m_root = nullptr, m_size = 0\<rparr>"

section \<open>Abstraction: nodes, elements, ordering\<close>

text \<open>The live nodes below a link. A released node is not a node of the tree.\<close>

fun node_count :: "'a node_ptr \<Rightarrow> nat" where
  "node_count nullptr = 0"
| "node_count Dangling = 0"
| "node_count (Node d r l) = Suc (node_count l + node_count r)"

text \<open>
  The nodes a walk from a link arrives at. The code tells a child from no child by
  comparing the link with the null pointer (\<^verbatim>\<open>if (!current->left)\<close>,
  \<^verbatim>\<open>while (current)\<close>, \<^verbatim>\<open>if (!node) return\<close>), so every link that is not null
  leads the walk to a node, released or not.
\<close>

fun linked_nodes :: "'a node_ptr \<Rightarrow> nat" where
  "linked_nodes nullptr = 0"
| "linked_nodes Dangling = 1"
| "linked_nodes (Node d r l) = Suc (linked_nodes l + linked_nodes r)"

fun elements :: "'a node_ptr \<Rightarrow> 'a set" where
  "elements nullptr = {}"
| "elements Dangling = {}"
| "elements (Node d r l) = insert d (elements l \<union> elements r)"

text \<open>Every link below is null or leads to a live node.\<close>

fun intact :: "'a node_ptr \<Rightarrow> bool" where
  "intact nullptr = True"
| "intact Dangling = False"
| "intact (Node d r l) = (intact l \<and> intact r)"

text \<open>
  The ordering invariant in the words of the data model: at every node, the values of the
  left subtree are strictly below the node's data and the values of the right subtree
  strictly above.
\<close>

fun ordered :: "'a::linorder node_ptr \<Rightarrow> bool" where
  "ordered nullptr = True"
| "ordered Dangling = True"
| "ordered (Node d r l) =
     ((\<forall>x \<in> elements l. x < d) \<and> (\<forall>x \<in> elements r. d < x) \<and> ordered l \<and> ordered r)"

text \<open>A tree of the data model: links intact, values ordered, counter exact.\<close>

definition well_formed :: "'a::linorder BinarySearchTree \<Rightarrow> bool" where
  "well_formed t \<longleftrightarrow>
     intact (m_root t) \<and> ordered (m_root t) \<and> m_size t = node_count (m_root t)"

text \<open>
  The ordering invariant at every node that the links lead to. A released node holds no
  value, so the invariant cannot hold at a node that a link still leads to after its release.
\<close>

definition ordering_invariant :: "'a::linorder BinarySearchTree \<Rightarrow> bool" where
  "ordering_invariant t \<longleftrightarrow> intact (m_root t) \<and> ordered (m_root t)"

fun height :: "'a node_ptr \<Rightarrow> nat" where
  "height nullptr = 0"
| "height Dangling = 0"
| "height (Node d r l) = Suc (max (height l) (height r))"

text \<open>Pre-order: the node, then its left subtree, then its right subtree.\<close>

fun preorder :: "'a node_ptr \<Rightarrow> 'a list" where
  "preorder nullptr = []"
| "preorder Dangling = []"
| "preorder (Node d r l) = d # preorder l @ preorder r"

text \<open>A sequence of calls of \<^verbatim>\<open>insert\<close>, with the results of the calls.\<close>

fun insert_seq ::
  "'a::linorder list \<Rightarrow> 'a BinarySearchTree \<Rightarrow> error + (bool list \<times> 'a BinarySearchTree)" where
  "insert_seq [] t = Inr ([], t)"
| "insert_seq (x # xs) t =
     (case insert_bst x t of
        Inl e \<Rightarrow> Inl e
      | Inr (b, t1) \<Rightarrow>
          (case insert_seq xs t1 of
             Inl e \<Rightarrow> Inl e
           | Inr (bs, t2) \<Rightarrow> Inr (b # bs, t2)))"

text \<open>
  The trees a program can hold: built by the constructors and changed by \<^verbatim>\<open>insert\<close>
  and \<^verbatim>\<open>remove\<close>, as long as no call runs into undefined behaviour.
\<close>

inductive reachable :: "'a::linorder BinarySearchTree \<Rightarrow> bool" where
  default: "reachable \<lparr>m_root = nullptr, m_size = 0\<rparr>"
| from_array: "array_construct arr = Inr t \<Longrightarrow> reachable t"
| copied: "reachable t \<Longrightarrow> copy_construct t = Inr t' \<Longrightarrow> reachable t'"
| moved_to: "reachable t \<Longrightarrow> reachable (fst (move_construct t))"
| moved_from: "reachable t \<Longrightarrow> reachable (snd (move_construct t))"
| inserted: "reachable t \<Longrightarrow> insert_bst val t = Inr (b, t') \<Longrightarrow> reachable t'"
| removed: "reachable t \<Longrightarrow> remove_bst val t = Inr (b, t') \<Longrightarrow> reachable t'"

text \<open>The functions that the loops compute on intact trees.\<close>

fun ins :: "'a::linorder \<Rightarrow> 'a node_ptr \<Rightarrow> 'a node_ptr" where
  "ins val nullptr = Node val nullptr nullptr"
| "ins val Dangling = Dangling"
| "ins val (Node d r l) =
     (if val > d then Node d (ins val r) l
      else if val < d then Node d r (ins val l)
      else Node d r l)"

fun found :: "'a::linorder node_ptr \<Rightarrow> 'a \<Rightarrow> bool" where
  "found nullptr val = False"
| "found Dangling val = False"
| "found (Node d r l) val =
     (if d > val then found l val else if d < val then found r val else True)"


section \<open>The loops on intact trees\<close>

lemma intact_count_zero: "intact p \<Longrightarrow> node_count p = 0 \<Longrightarrow> p = nullptr"
  by (cases p) auto

lemma insert_loop_ins:
  "intact p \<Longrightarrow> p \<noteq> nullptr \<Longrightarrow> insert_loop v p = Inr (\<not> found p v, ins v p)"
  by (induction p) auto

lemma contains_loop_found: "intact p \<Longrightarrow> contains_loop p v = Inr (found p v)"
  by (induction p) auto

lemma found_elements: "ordered p \<Longrightarrow> found p v = (v \<in> elements p)"
  by (induction p) auto

lemma intact_ins: "intact p \<Longrightarrow> intact (ins v p)"
  by (induction p) auto

lemma elements_ins: "intact p \<Longrightarrow> elements (ins v p) = insert v (elements p)"
  by (induction p) auto

lemma ordered_ins: "intact p \<Longrightarrow> ordered p \<Longrightarrow> ordered (ins v p)"
  by (induction p) (auto simp: elements_ins)

lemma node_count_ins:
  "intact p \<Longrightarrow> node_count (ins v p) = (if found p v then node_count p else Suc (node_count p))"
  by (induction p) auto

lemma ins_found: "found p v \<Longrightarrow> ins v p = p"
  by (induction p) (auto split: if_splits)

lemma insert_bst_ins:
  assumes "intact (m_root t)" and "m_size t = node_count (m_root t)"
  shows "insert_bst v t =
           Inr (\<not> found (m_root t) v,
                \<lparr>m_root = ins v (m_root t), m_size = node_count (ins v (m_root t))\<rparr>)"
proof (cases "m_size t = 0")
  case True
  with assms have "m_root t = nullptr" by (simp add: intact_count_zero)
  with True show ?thesis by (simp add: insert_bst_def)
next
  case False
  with assms have "m_root t \<noteq> nullptr" by auto
  with False assms show ?thesis
    by (simp add: insert_bst_def insert_loop_ins node_count_ins)
qed

lemma remove_loop_absent:
  "intact p \<Longrightarrow> v \<notin> elements p \<Longrightarrow> remove_loop v p = Inr (False, p)"
  by (induction p) auto

lemma prefix_comp_refl: "intact p \<Longrightarrow> prefix_comp p p = Inr True"
  by (induction p) auto

lemma insert_seq_general:
  "intact (m_root t) \<Longrightarrow> ordered (m_root t) \<Longrightarrow> m_size t = node_count (m_root t) \<Longrightarrow>
   \<exists>bs t'. insert_seq xs t = Inr (bs, t') \<and> length bs = length xs
     \<and> intact (m_root t') \<and> ordered (m_root t') \<and> m_size t' = node_count (m_root t')
     \<and> elements (m_root t') = elements (m_root t) \<union> set xs
     \<and> m_size t' = m_size t + length (filter (\<lambda>b. b) bs)
     \<and> (distinct xs \<and> set xs \<inter> elements (m_root t) = {} \<longrightarrow> bs = replicate (length xs) True)"
proof (induction xs arbitrary: t)
  case Nil
  then show ?case by simp
next
  case (Cons x xs)
  let ?t1 = "\<lparr>m_root = ins x (m_root t), m_size = node_count (ins x (m_root t))\<rparr>"
  have step: "insert_bst x t = Inr (\<not> found (m_root t) x, ?t1)"
    using Cons.prems by (simp add: insert_bst_ins)
  have i1: "intact (m_root ?t1)" using Cons.prems by (simp add: intact_ins)
  have o1: "ordered (m_root ?t1)" using Cons.prems by (simp add: ordered_ins)
  have s1: "m_size ?t1 = node_count (m_root ?t1)" by simp
  from Cons.IH [OF i1 o1 s1] obtain bs t' where
    r: "insert_seq xs ?t1 = Inr (bs, t')" "length bs = length xs"
       "intact (m_root t')" "ordered (m_root t')" "m_size t' = node_count (m_root t')"
       "elements (m_root t') = elements (m_root ?t1) \<union> set xs"
       "m_size t' = m_size ?t1 + length (filter (\<lambda>b. b) bs)"
       "distinct xs \<and> set xs \<inter> elements (m_root ?t1) = {} \<longrightarrow> bs = replicate (length xs) True"
    by blast
  have e1: "elements (m_root ?t1) = insert x (elements (m_root t))"
    using Cons.prems by (simp add: elements_ins)
  have f: "found (m_root t) x = (x \<in> elements (m_root t))"
    using Cons.prems by (simp add: found_elements)
  have c1: "m_size ?t1 = m_size t + (if found (m_root t) x then 0 else 1)"
    using Cons.prems by (simp add: node_count_ins)
  have "insert_seq (x # xs) t = Inr ((\<not> found (m_root t) x) # bs, t')"
    using step r(1) by simp
  moreover have "elements (m_root t') = elements (m_root t) \<union> set (x # xs)"
    using r(6) e1 by auto
  moreover have "m_size t' = m_size t + length (filter (\<lambda>b. b) ((\<not> found (m_root t) x) # bs))"
    using r(7) c1 by simp
  moreover have "distinct (x # xs) \<and> set (x # xs) \<inter> elements (m_root t) = {} \<longrightarrow>
      (\<not> found (m_root t) x) # bs = replicate (length (x # xs)) True"
    using r(8) e1 f by auto
  ultimately show ?case using r(2-5) by simp
qed

section \<open>insert\<close>

text \<open>
  Claim C4. On a tree of the data model, \<^verbatim>\<open>insert(value)\<close> inserts the value exactly
  when it is absent: for an absent value it returns true, the size grows by one, the value
  joins the elements and the tree is again a tree of the data model; for a value already
  present it returns false and the tree is unchanged. Presence is what \<^verbatim>\<open>contains\<close>
  answers.
\<close>

theorem insert_contract:
  assumes "well_formed t"
  shows "contains t val = Inr (val \<in> elements (m_root t))
    \<and> (val \<notin> elements (m_root t) \<longrightarrow>
         (\<exists>t'. insert_bst val t = Inr (True, t') \<and> size_bst t' = size_bst t + 1
            \<and> elements (m_root t') = insert val (elements (m_root t)) \<and> well_formed t'))
    \<and> (val \<in> elements (m_root t) \<longrightarrow> insert_bst val t = Inr (False, t))"
proof -
  from assms have i: "intact (m_root t)" and o: "ordered (m_root t)"
    and s: "m_size t = node_count (m_root t)"
    by (simp_all add: well_formed_def)
  have f: "found (m_root t) val = (val \<in> elements (m_root t))"
    using o by (rule found_elements)
  have c: "contains t val = Inr (val \<in> elements (m_root t))"
    using i f by (simp add: contains_def contains_loop_found)
  have step: "insert_bst val t =
      Inr (\<not> found (m_root t) val,
           \<lparr>m_root = ins val (m_root t), m_size = node_count (ins val (m_root t))\<rparr>)"
    using i s by (rule insert_bst_ins)
  have a: "val \<notin> elements (m_root t) \<longrightarrow>
         (\<exists>t'. insert_bst val t = Inr (True, t') \<and> size_bst t' = size_bst t + 1
            \<and> elements (m_root t') = insert val (elements (m_root t)) \<and> well_formed t')"
    using step f i o s
    by (simp add: size_bst_def well_formed_def node_count_ins elements_ins intact_ins ordered_ins)
  have b: "val \<in> elements (m_root t) \<longrightarrow> insert_bst val t = Inr (False, t)"
    using step f s by (simp add: ins_found)
  from c a b show ?thesis by blast
qed

theorem insert_contract_witness:
  "well_formed \<lparr>m_root = Node (5::int) nullptr nullptr, m_size = 1\<rparr>
   \<and> insert_bst 3 \<lparr>m_root = Node (5::int) nullptr nullptr, m_size = 1\<rparr>
       = Inr (True, \<lparr>m_root = Node 5 nullptr (Node 3 nullptr nullptr), m_size = 2\<rparr>)
   \<and> size_bst \<lparr>m_root = Node (5::int) nullptr (Node 3 nullptr nullptr), m_size = 2\<rparr>
       = size_bst \<lparr>m_root = Node (5::int) nullptr nullptr, m_size = 1\<rparr> + 1
   \<and> insert_bst 5 \<lparr>m_root = Node (5::int) nullptr nullptr, m_size = 1\<rparr>
       = Inr (False, \<lparr>m_root = Node 5 nullptr nullptr, m_size = 1\<rparr>)"
proof -
  have w: "well_formed \<lparr>m_root = Node (5::int) nullptr nullptr, m_size = 1\<rparr>"
    by (simp add: well_formed_def)
  from w insert_contract [OF w, of 3] insert_contract [OF w, of 5] show ?thesis
    by (simp add: insert_bst_def size_bst_def)
qed

text \<open>
  Claim C5. Distinct values inserted one after the other into the empty tree: every call
  returns true, \<^verbatim>\<open>contains\<close> answers true for exactly the inserted values, and
  \<^verbatim>\<open>size()\<close> is the number of calls that returned true (the number of values).
\<close>

theorem insert_distinct_sequence:
  assumes "distinct xs"
  shows "\<exists>bs t. insert_seq xs empty_tree = Inr (bs, t)
    \<and> (\<forall>v. contains t v = Inr (v \<in> set xs))
    \<and> bs = replicate (length xs) True
    \<and> size_bst t = length (filter (\<lambda>b. b) bs)
    \<and> size_bst t = length xs"
proof -
  have "intact (m_root (empty_tree :: 'a BinarySearchTree))"
    "ordered (m_root (empty_tree :: 'a BinarySearchTree))"
    "m_size (empty_tree :: 'a BinarySearchTree) = node_count (m_root (empty_tree :: 'a BinarySearchTree))"
    by (simp_all add: empty_tree_def)
  from insert_seq_general [OF this, of xs] obtain bs t where
    r: "insert_seq xs empty_tree = Inr (bs, t)" "length bs = length xs"
       "intact (m_root t)" "ordered (m_root t)"
       "elements (m_root t) = elements (m_root (empty_tree :: 'a BinarySearchTree)) \<union> set xs"
       "m_size t = m_size (empty_tree :: 'a BinarySearchTree) + length (filter (\<lambda>b. b) bs)"
       "distinct xs \<and> set xs \<inter> elements (m_root (empty_tree :: 'a BinarySearchTree)) = {}
          \<longrightarrow> bs = replicate (length xs) True"
    by blast
  have bs: "bs = replicate (length xs) True"
    using r(7) assms by (simp add: empty_tree_def)
  have c: "\<forall>v. contains t v = Inr (v \<in> set xs)"
    using r(3,4,5) by (simp add: contains_def contains_loop_found found_elements empty_tree_def)
  have sz: "size_bst t = length (filter (\<lambda>b. b) bs)"
    using r(6) by (simp add: size_bst_def empty_tree_def)
  have "size_bst t = length xs" using sz bs by simp
  with r(1) c bs sz show ?thesis by blast
qed

theorem insert_distinct_sequence_witness:
  "distinct [4, 2, 6 :: int]
   \<and> insert_seq [4, 2, 6 :: int] empty_tree
       = Inr ([True, True, True],
              \<lparr>m_root = Node 4 (Node 6 nullptr nullptr) (Node 2 nullptr nullptr), m_size = 3\<rparr>)
   \<and> contains \<lparr>m_root = Node (4::int) (Node 6 nullptr nullptr) (Node 2 nullptr nullptr),
               m_size = 3\<rparr> 6 = Inr True
   \<and> contains \<lparr>m_root = Node (4::int) (Node 6 nullptr nullptr) (Node 2 nullptr nullptr),
               m_size = 3\<rparr> 5 = Inr False
   \<and> size_bst \<lparr>m_root = Node (4::int) (Node 6 nullptr nullptr) (Node 2 nullptr nullptr),
               m_size = 3\<rparr> = 3"
proof -
  have d: "distinct [4, 2, 6 :: int]" by simp
  from d insert_distinct_sequence [OF d] show ?thesis
    by (simp add: insert_bst_def empty_tree_def contains_def size_bst_def)
qed

section \<open>remove\<close>

text \<open>
  Claim C6. Removing a value that is not in an intact tree returns false and leaves
  \<^verbatim>\<open>m_root\<close>, every node below it and \<^verbatim>\<open>m_size\<close> as they were.
\<close>

theorem remove_absent_unchanged:
  assumes "intact (m_root t)" and "val \<notin> elements (m_root t)"
  shows "remove_bst val t = Inr (False, t)"
  using assms by (simp add: remove_bst_def remove_loop_absent)

theorem remove_absent_unchanged_witness:
  "intact (m_root \<lparr>m_root = Node (5::int) nullptr (Node 3 nullptr nullptr), m_size = 2\<rparr>)
   \<and> 4 \<notin> elements (m_root \<lparr>m_root = Node (5::int) nullptr (Node 3 nullptr nullptr), m_size = 2\<rparr>)
   \<and> remove_bst 4 \<lparr>m_root = Node (5::int) nullptr (Node 3 nullptr nullptr), m_size = 2\<rparr>
       = Inr (False, \<lparr>m_root = Node 5 nullptr (Node 3 nullptr nullptr), m_size = 2\<rparr>)"
proof -
  let ?t = "\<lparr>m_root = Node (5::int) nullptr (Node 3 nullptr nullptr), m_size = 2\<rparr>"
  have i: "intact (m_root ?t)" by simp
  have a: "4 \<notin> elements (m_root ?t)" by simp
  from i a remove_absent_unchanged [OF i a] show ?thesis by simp
qed

text \<open>
  Removing a value that is present. The return value, the counter, the number of live nodes
  and the remaining values are as expected; what the links look like afterwards is the
  subject of the next theorem.
\<close>

lemma insert_loop_count:
  "insert_loop v p = Inr (b, p') \<Longrightarrow> node_count p' = node_count p + (if b then 1 else 0)"
  by (induction p arbitrary: b p') (auto split: if_splits sum.splits)

lemma insert_bst_count:
  assumes "m_size t = node_count (m_root t)" and "insert_bst v t = Inr (b, t')"
  shows "m_size t' = node_count (m_root t')"
proof (cases "m_size t = 0")
  case True
  with assms(2) show ?thesis by (auto simp: insert_bst_def)
next
  case False
  with assms(2) obtain p where l: "insert_loop v (m_root t) = Inr (b, p)"
    and t': "t' = \<lparr>m_root = p, m_size = (if b then m_size t + 1 else m_size t)\<rparr>"
    by (auto simp: insert_bst_def split: sum.splits)
  from insert_loop_count [OF l] assms(1) t' show ?thesis by simp
qed

lemma splice_min_count:
  "splice_min p = Inr (m, p') \<Longrightarrow> node_count p = Suc (node_count p')"
  by (induction p arbitrary: m p' rule: splice_min.induct)
     (auto split: if_splits sum.splits)

lemma splice_max_count:
  "splice_max p = Inr (m, p') \<Longrightarrow> node_count p = Suc (node_count p')"
  by (induction p arbitrary: m p' rule: splice_max.induct)
     (auto split: if_splits sum.splits)

lemma remove_target_count:
  "remove_target p = Inr p' \<Longrightarrow> node_count p = Suc (node_count p')"
  by (cases p)
     (auto split: node_ptr.splits if_splits sum.splits
           dest!: splice_min_count splice_max_count)

lemma remove_loop_count:
  "remove_loop v p = Inr (b, p') \<Longrightarrow> node_count p = node_count p' + (if b then 1 else 0)"
proof (induction p arbitrary: b p')
  case (Node d r l)
  show ?case
  proof (cases "d > v")
    case True
    with Node.prems Node.IH(2) show ?thesis by (auto split: sum.splits)
  next
    case False
    show ?thesis
    proof (cases "d < v")
      case True
      with False Node.prems Node.IH(1) show ?thesis by (auto split: sum.splits)
    next
      case eq: False
      with False Node.prems obtain q where
        "remove_target (Node d r l) = Inr q" "b" "p' = q"
        by (auto split: sum.splits)
      with remove_target_count [of "Node d r l" q] show ?thesis by simp
    qed
  qed
qed simp_all

lemma remove_bst_count:
  assumes "m_size t = node_count (m_root t)" and "remove_bst v t = Inr (b, t')"
  shows "m_size t' = node_count (m_root t')"
proof -
  from assms(2) obtain p where l: "remove_loop v (m_root t) = Inr (b, p)"
    and t': "t' = \<lparr>m_root = p, m_size = (if b then decrement (m_size t) else m_size t)\<rparr>"
    by (auto simp: remove_bst_def split: sum.splits)
  from remove_loop_count [OF l] assms(1) t' show ?thesis
    by (simp add: decrement_def)
qed

lemma splice_min_ok:
  "intact (Node d r l) \<Longrightarrow> ordered (Node d r l) \<Longrightarrow> l \<noteq> nullptr \<Longrightarrow>
   \<exists>m p'. splice_min (Node d r l) = Inr (m, p') \<and> m \<notin> elements p'
      \<and> elements (Node d r l) = insert m (elements p') \<and> (\<forall>x \<in> elements p'. m < x)
      \<and> ordered p'"
proof (induction "Node d r l" arbitrary: d r l rule: splice_min.induct)
  case (5 d r ld lr ll)
  show ?case
  proof (cases "ll = nullptr")
    case True
    with "5.prems" show ?thesis by (cases lr) (auto)
  next
    case False
    from "5.prems" have "intact (Node ld lr ll)" "ordered (Node ld lr ll)" by simp_all
    from "5.hyps" [OF False this False] obtain m l' where
      s: "splice_min (Node ld lr ll) = Inr (m, l')" "m \<notin> elements l'"
         "elements (Node ld lr ll) = insert m (elements l')" "\<forall>x \<in> elements l'. m < x"
         "ordered l'"
      by blast
    have "splice_min (Node d r (Node ld lr ll)) = Inr (m, Node d r l')"
      using False s(1) by simp
    moreover have "m < d" using "5.prems"(2) s(3) by auto
    moreover have "\<forall>x \<in> elements l'. x < d" using "5.prems"(2) s(3) by auto
    moreover have "\<forall>x \<in> elements r. d < x" using "5.prems"(2) by auto
    ultimately show ?thesis using s "5.prems" by (auto intro!: exI)
  qed
qed simp_all

lemma splice_max_ok:
  "intact (Node d r l) \<Longrightarrow> ordered (Node d r l) \<Longrightarrow> r \<noteq> nullptr \<Longrightarrow>
   \<exists>m p'. splice_max (Node d r l) = Inr (m, p') \<and> m \<notin> elements p'
      \<and> elements (Node d r l) = insert m (elements p') \<and> (\<forall>x \<in> elements p'. x < m)
      \<and> ordered p'"
proof (induction "Node d r l" arbitrary: d r l rule: splice_max.induct)
  case (5 d rd rr rl l)
  show ?case
  proof (cases "rr = nullptr")
    case True
    with "5.prems" show ?thesis by (cases rl) (auto)
  next
    case False
    from "5.prems" have "intact (Node rd rr rl)" "ordered (Node rd rr rl)" by simp_all
    from "5.hyps" [OF False this False] obtain m r' where
      s: "splice_max (Node rd rr rl) = Inr (m, r')" "m \<notin> elements r'"
         "elements (Node rd rr rl) = insert m (elements r')" "\<forall>x \<in> elements r'. x < m"
         "ordered r'"
      by blast
    have "splice_max (Node d (Node rd rr rl) l) = Inr (m, Node d r' l)"
      using False s(1) by simp
    moreover have "d < m" using "5.prems"(2) s(3) by auto
    moreover have "\<forall>x \<in> elements r'. d < x" using "5.prems"(2) s(3) by auto
    moreover have "\<forall>x \<in> elements l. x < d" using "5.prems"(2) by auto
    ultimately show ?thesis using s "5.prems" by (auto intro!: exI)
  qed
qed simp_all

lemma remove_target_ok:
  assumes "intact (Node d r l)" and "ordered (Node d r l)"
  shows "\<exists>p'. remove_target (Node d r l) = Inr p'
     \<and> elements p' = elements (Node d r l) - {d} \<and> ordered p'"
proof (cases r)
  case nullptr
  show ?thesis
  proof (cases l)
    case (Node ld lr ll)
    show ?thesis
    proof (cases "lr = nullptr")
      case True
      with assms nullptr Node show ?thesis by auto
    next
      case False
      from assms Node have "intact (Node ld lr ll)" "ordered (Node ld lr ll)" by simp_all
      from splice_max_ok [OF this False] obtain m l' where
        s: "splice_max (Node ld lr ll) = Inr (m, l')" "m \<notin> elements l'"
           "elements (Node ld lr ll) = insert m (elements l')" "\<forall>x \<in> elements l'. x < m"
           "ordered l'"
        by blast
      have "remove_target (Node d r l) = Inr (Node m r l')"
        using nullptr Node False s(1) by simp
      moreover have "elements (Node m r l') = elements (Node d r l) - {d}"
        using assms(2) nullptr Node s(3) by auto
      moreover have "ordered (Node m r l')"
        using nullptr s(4,5) by simp
      ultimately show ?thesis by blast
    qed
  qed (use assms nullptr in auto)
next
  case Dangling
  with assms show ?thesis by simp
next
  case (Node rd rr rl)
  show ?thesis
  proof (cases "rl = nullptr")
    case True
    with assms Node show ?thesis by auto
  next
    case False
    from assms Node have "intact (Node rd rr rl)" "ordered (Node rd rr rl)" by simp_all
    from splice_min_ok [OF this False] obtain m r' where
      s: "splice_min (Node rd rr rl) = Inr (m, r')" "m \<notin> elements r'"
         "elements (Node rd rr rl) = insert m (elements r')" "\<forall>x \<in> elements r'. m < x"
         "ordered r'"
      by blast
    have "remove_target (Node d r l) = Inr (Node m r' l)"
      using Node False s(1) by simp
    moreover have dm: "d < m" using assms(2) Node s(3) by auto
    moreover have "elements (Node m r' l) = elements (Node d r l) - {d}"
      using assms(2) Node s(2,3) dm by auto
    moreover have "ordered (Node m r' l)"
      using assms(2) s(4,5) dm by auto
    ultimately show ?thesis by blast
  qed
qed

lemma remove_loop_present:
  "intact p \<Longrightarrow> ordered p \<Longrightarrow> v \<in> elements p \<Longrightarrow>
   \<exists>p'. remove_loop v p = Inr (True, p') \<and> elements p' = elements p - {v} \<and> ordered p'"
proof (induction p)
  case (Node d r l)
  show ?case
  proof (cases "d > v")
    case True
    with Node.prems have "v \<in> elements l" by auto
    with Node.IH(2) Node.prems obtain l' where
      "remove_loop v l = Inr (True, l')" "elements l' = elements l - {v}" "ordered l'"
      by auto
    moreover have "v \<notin> elements r"
    proof
      assume "v \<in> elements r"
      with Node.prems(2) have "d < v" by simp
      with True show False by simp
    qed
    ultimately show ?thesis using True Node.prems by auto
  next
    case False
    show ?thesis
    proof (cases "d < v")
      case True
      with Node.prems have "v \<in> elements r" by auto
      with Node.IH(1) Node.prems obtain r' where
        "remove_loop v r = Inr (True, r')" "elements r' = elements r - {v}" "ordered r'"
        by auto
      moreover have "v \<notin> elements l"
      proof
        assume "v \<in> elements l"
        with Node.prems(2) have "v < d" by simp
        with True show False by simp
      qed
      ultimately show ?thesis using True False Node.prems by auto
    next
      case eq: False
      with False have "d = v" by simp
      with remove_target_ok [OF Node.prems(1,2)] show ?thesis by auto
    qed
  qed
qed simp_all

lemma remove_present_result:
  assumes "well_formed t" and "v \<in> elements (m_root t)"
  shows "\<exists>t'. remove_bst v t = Inr (True, t') \<and> size_bst t' + 1 = size_bst t
     \<and> node_count (m_root t') + 1 = node_count (m_root t)
     \<and> elements (m_root t') = elements (m_root t) - {v}
     \<and> ordered (m_root t')"
proof -
  from assms(1) have i: "intact (m_root t)" and o: "ordered (m_root t)"
    and s: "m_size t = node_count (m_root t)"
    by (simp_all add: well_formed_def)
  from remove_loop_present [OF i o assms(2)] obtain p' where
    r: "remove_loop v (m_root t) = Inr (True, p')" "elements p' = elements (m_root t) - {v}"
       "ordered p'"
    by blast
  from remove_loop_count [OF r(1)] have c: "node_count (m_root t) = node_count p' + 1" by simp
  show ?thesis using r c s by (simp add: remove_bst_def size_bst_def decrement_def)
qed

text \<open>
  Claim C1. Removing a present value returns true, removes one node, decreases the size by
  one, and \<^verbatim>\<open>contains(value)\<close> is false afterwards. The code at a tree of the data
  model, root 5 with left child 3, and the value 3: \<^verbatim>\<open>remove(3)\<close> returns true and the
  size becomes 1, but the left link of the root still points at the released node, and
  \<^verbatim>\<open>contains(3)\<close> reads it.
\<close>

theorem remove_leaf_then_contains:
  "well_formed \<lparr>m_root = Node (5::int) nullptr (Node 3 nullptr nullptr), m_size = 2\<rparr>
   \<and> contains \<lparr>m_root = Node (5::int) nullptr (Node 3 nullptr nullptr), m_size = 2\<rparr> 3 = Inr True
   \<and> remove_bst 3 \<lparr>m_root = Node (5::int) nullptr (Node 3 nullptr nullptr), m_size = 2\<rparr>
       = Inr (True, \<lparr>m_root = Node 5 nullptr Dangling, m_size = 1\<rparr>)
   \<and> contains \<lparr>m_root = Node (5::int) nullptr Dangling, m_size = 1\<rparr> 3 = Inl UseAfterFree"
  by (simp add: well_formed_def contains_def remove_bst_def decrement_def)

text \<open>
  \<^verbatim>\<open>insert\<close> keeps the ordering invariant of a tree whose counter is exact.
\<close>

lemma insert_keeps_ordering_invariant:
  assumes "ordering_invariant t" and "m_size t = node_count (m_root t)"
    and "insert_bst v t = Inr (b, t')"
  shows "ordering_invariant t' \<and> m_size t' = node_count (m_root t')"
proof -
  from assms(1) have i: "intact (m_root t)" and o: "ordered (m_root t)"
    by (simp_all add: ordering_invariant_def)
  from insert_bst_ins [OF i assms(2), of v] assms(3)
  have "t' = \<lparr>m_root = ins v (m_root t), m_size = node_count (ins v (m_root t))\<rparr>"
    by simp
  with i o show ?thesis
    by (simp add: ordering_invariant_def intact_ins ordered_ins)
qed

text \<open>
  Claim C2. After any sequence of \<^verbatim>\<open>insert\<close> and \<^verbatim>\<open>remove\<close> calls on the empty
  tree the ordering invariant holds at every node. The code after \<^verbatim>\<open>insert(5)\<close> and
  \<^verbatim>\<open>remove(5)\<close>: the invariant holds after the first call; the second call returns true
  and leaves \<^verbatim>\<open>m_root\<close> pointing at the released node, which holds no value to be
  ordered, and copy construction from that tree reads it.
\<close>

theorem ordering_after_insert_remove:
  "insert_bst (5::int) empty_tree = Inr (True, \<lparr>m_root = Node 5 nullptr nullptr, m_size = 1\<rparr>)
   \<and> ordering_invariant \<lparr>m_root = Node (5::int) nullptr nullptr, m_size = 1\<rparr>
   \<and> remove_bst 5 \<lparr>m_root = Node (5::int) nullptr nullptr, m_size = 1\<rparr>
       = Inr (True, \<lparr>m_root = Dangling, m_size = 0\<rparr>)
   \<and> \<not> ordering_invariant \<lparr>m_root = (Dangling :: int node_ptr), m_size = 0\<rparr>
   \<and> copy_construct \<lparr>m_root = (Dangling :: int node_ptr), m_size = 0\<rparr> = Inl UseAfterFree"
  by (simp add: insert_bst_def empty_tree_def remove_bst_def decrement_def
                ordering_invariant_def copy_construct_def)

section \<open>The counter\<close>

text \<open>
  \<^verbatim>\<open>m_size\<close> is the number of live nodes in every tree a program can hold.
\<close>

lemma prefix_insert_count:
  "m_size s = node_count (m_root s) \<Longrightarrow> prefix_insert p s = Inr s' \<Longrightarrow>
   m_size s' = node_count (m_root s')"
proof (induction p arbitrary: s s')
  case (Node d r l)
  from Node.prems(2) obtain b s1 s2 where
    a: "insert_bst d s = Inr (b, s1)" and
    b: "prefix_insert l s1 = Inr s2" and
    c: "prefix_insert r s2 = Inr s'"
    by (auto split: sum.splits)
  from insert_bst_count [OF Node.prems(1) a] have "m_size s1 = node_count (m_root s1)" .
  from Node.IH(2) [OF this b] have "m_size s2 = node_count (m_root s2)" .
  from Node.IH(1) [OF this c] show ?case .
qed simp_all

lemma bisection_insert_count:
  "m_size s = node_count (m_root s) \<Longrightarrow> bisection_insert arr lower upper s = Inr s' \<Longrightarrow>
   m_size s' = node_count (m_root s')"
proof (induction arr lower upper s arbitrary: s' rule: bisection_insert.induct)
  case (1 arr lower upper s)
  show ?case
  proof (cases "lower \<ge> upper")
    case True
    with "1.prems" show ?thesis by (simp add: bisection_insert.simps)
  next
    case False
    define midpoint where "midpoint = (lower + upper) div 2"
    from False "1.prems"(2) have inr: "\<not> length arr \<le> midpoint"
      by (auto simp: bisection_insert.simps [of arr lower upper s] midpoint_def Let_def
               split: if_splits)
    from False "1.prems"(2) inr obtain b s1 s2 where
      a: "insert_bst (arr ! midpoint) s = Inr (b, s1)" and
      b: "bisection_insert arr lower midpoint s1 = Inr s2" and
      c: "bisection_insert arr (midpoint + 1) upper s2 = Inr s'"
      by (auto simp: bisection_insert.simps [of arr lower upper s] midpoint_def Let_def
               split: sum.splits)
    have i1: "m_size s1 = node_count (m_root s1)"
      using insert_bst_count [OF "1.prems"(1) a] .
    have i2: "m_size s2 = node_count (m_root s2)"
      using "1.IH"(1) [OF False midpoint_def inr _ _ i1 b] a by simp
    show ?thesis
      using "1.IH"(2) [OF False midpoint_def inr _ _ _ i2 c] a b by simp
  qed
qed

lemma counter_counts_live_nodes:
  assumes "reachable t"
  shows "m_size t = node_count (m_root t)"
  using assms
proof (induction rule: reachable.induct)
  case default
  show ?case by simp
next
  case (from_array arr t)
  then show ?case
    by (auto simp: array_construct_def intro: bisection_insert_count [rotated])
next
  case (copied t t')
  then show ?case
    by (auto simp: copy_construct_def intro: prefix_insert_count [rotated])
next
  case (moved_to t)
  then show ?case by (simp add: move_construct_def)
next
  case (moved_from t)
  show ?case by (simp add: move_construct_def)
next
  case (inserted t val b t')
  then show ?case by (auto intro: insert_bst_count)
next
  case (removed t val b t')
  then show ?case by (auto intro: remove_bst_count)
qed

text \<open>
  Claim C3. After every sequence of public operations the size counter is the number of
  nodes reachable from the root. The code after \<^verbatim>\<open>insert(5)\<close>, \<^verbatim>\<open>insert(3)\<close>,
  \<^verbatim>\<open>remove(3)\<close> on the empty tree: the counter is 1 and one node is live, but the
  root's left link is not null, so two nodes are reachable over the links.
\<close>

theorem counter_after_remove_leaf:
  "insert_bst (5::int) empty_tree = Inr (True, \<lparr>m_root = Node 5 nullptr nullptr, m_size = 1\<rparr>)
   \<and> insert_bst 3 \<lparr>m_root = Node (5::int) nullptr nullptr, m_size = 1\<rparr>
       = Inr (True, \<lparr>m_root = Node 5 nullptr (Node 3 nullptr nullptr), m_size = 2\<rparr>)
   \<and> remove_bst 3 \<lparr>m_root = Node (5::int) nullptr (Node 3 nullptr nullptr), m_size = 2\<rparr>
       = Inr (True, \<lparr>m_root = Node 5 nullptr Dangling, m_size = 1\<rparr>)
   \<and> size_bst \<lparr>m_root = Node (5::int) nullptr Dangling, m_size = 1\<rparr> = 1
   \<and> linked_nodes (m_root \<lparr>m_root = Node (5::int) nullptr Dangling, m_size = 1\<rparr>) = 2
   \<and> node_count (m_root \<lparr>m_root = Node (5::int) nullptr Dangling, m_size = 1\<rparr>) = 1"
  by (simp add: insert_bst_def empty_tree_def remove_bst_def decrement_def size_bst_def)


section \<open>Construction\<close>

text \<open>
  Claim C9. Move construction: the new tree is the old one (same root, same size), and the
  source is left with no root and size 0, so \<^verbatim>\<open>contains\<close> is false on it for every
  value. \<open>move_construct\<close> reads the two fields of the source and nothing below them.
\<close>

theorem move_transfers:
  "fst (move_construct t2) = t2
   \<and> size_bst (snd (move_construct t2)) = 0
   \<and> contains (snd (move_construct t2)) v = Inr False
   \<and> m_root (snd (move_construct t2)) = nullptr"
  by (simp add: move_construct_def size_bst_def contains_def)

subsection \<open>Bulk construction\<close>

lemma node_count_height: "node_count p < 2 ^ height p"
proof (induction p)
  case (Node d r l)
  have "(2::nat) ^ height l \<le> 2 ^ max (height l) (height r)"
    by (rule power_increasing) simp_all
  moreover have "(2::nat) ^ height r \<le> 2 ^ max (height l) (height r)"
    by (rule power_increasing) simp_all
  ultimately have "Suc (node_count l + node_count r) < 2 * 2 ^ max (height l) (height r)"
    using Node.IH by linarith
  then show ?case by simp
qed simp_all

lemma seven_nodes_height: "node_count q = 7 \<Longrightarrow> 3 \<le> height q"
proof (rule ccontr)
  assume n: "node_count q = 7" and "\<not> 3 \<le> height q"
  then have "height q \<le> 2" by simp
  then have "(2::nat) ^ height q \<le> 2 ^ 2" by (rule power_increasing) simp
  with node_count_height [of q] n show False by simp
qed

lemma bisection_1_to_7:
  "bisection_insert [1, 2, 3, 4, 5, 6, 7 :: int] 0 7 \<lparr>m_root = nullptr, m_size = 0\<rparr> =
     Inr \<lparr>m_root =
            Node 4 (Node 6 (Node 7 nullptr nullptr) (Node 5 nullptr nullptr))
                   (Node 2 (Node 3 nullptr nullptr) (Node 1 nullptr nullptr)),
          m_size = 7\<rparr>"
  by code_simp

lemma insert_seq_breadth_first:
  "insert_seq [4, 2, 6, 1, 3, 5, 7 :: int] empty_tree =
     Inr (replicate 7 True,
          \<lparr>m_root =
            Node 4 (Node 6 (Node 7 nullptr nullptr) (Node 5 nullptr nullptr))
                   (Node 2 (Node 3 nullptr nullptr) (Node 1 nullptr nullptr)),
          m_size = 7\<rparr>)"
  by code_simp

lemma insert_seq_depth_first:
  "insert_seq [4, 2, 1, 3, 6, 5, 7 :: int] empty_tree =
     Inr (replicate 7 True,
          \<lparr>m_root =
            Node 4 (Node 6 (Node 7 nullptr nullptr) (Node 5 nullptr nullptr))
                   (Node 2 (Node 3 nullptr nullptr) (Node 1 nullptr nullptr)),
          m_size = 7\<rparr>)"
  by code_simp

text \<open>
  Claim C7. The tree built from an array holding 1, ..., 7 in any order has root 4 with
  children 2 and 6 and leaves 1, 3, 5, 7. Its height 3 is the least height of a tree of
  seven nodes. It is the tree that the calls \<^verbatim>\<open>insert\<close> of 4, 2, 6, 1, 3, 5, 7 build, and
  also the one built in the order 4, 2, 1, 3, 6, 5, 7 in which \<^verbatim>\<open>bisection_insert\<close>
  visits the midpoints.
\<close>

theorem bulk_construction_of_seven:
  assumes "mset arr = mset [1, 2, 3, 4, 5, 6, 7 :: int]"
  shows "\<exists>t. array_construct arr = Inr t
    \<and> m_root t = Node 4 (Node 6 (Node 7 nullptr nullptr) (Node 5 nullptr nullptr))
                        (Node 2 (Node 3 nullptr nullptr) (Node 1 nullptr nullptr))
    \<and> size_bst t = 7
    \<and> height (m_root t) = 3
    \<and> (\<forall>q :: int node_ptr. node_count q = 7 \<longrightarrow> height (m_root t) \<le> height q)
    \<and> insert_seq [4, 2, 6, 1, 3, 5, 7] empty_tree = Inr (replicate 7 True, t)
    \<and> insert_seq [4, 2, 1, 3, 6, 5, 7] empty_tree = Inr (replicate 7 True, t)"
proof -
  have "sorted [1, 2, 3, 4, 5, 6, 7 :: int]" by simp
  with assms have srt: "sort arr = [1, 2, 3, 4, 5, 6, 7]"
    by (simp add: properties_for_sort)
  from assms have "length arr = length [1, 2, 3, 4, 5, 6, 7 :: int]"
    by (rule mset_eq_length)
  then have len: "length arr = 7" by simp
  let ?t = "\<lparr>m_root =
            Node 4 (Node 6 (Node 7 nullptr nullptr) (Node 5 nullptr nullptr))
                   (Node 2 (Node 3 nullptr nullptr) (Node 1 nullptr nullptr)),
          m_size = 7\<rparr> :: int BinarySearchTree"
  have c: "array_construct arr = Inr ?t"
    unfolding array_construct_def srt len by (rule bisection_1_to_7)
  have rt: "m_root ?t = Node 4 (Node 6 (Node 7 nullptr nullptr) (Node 5 nullptr nullptr))
                        (Node 2 (Node 3 nullptr nullptr) (Node 1 nullptr nullptr))"
    by simp
  have sz: "size_bst ?t = 7" by (simp add: size_bst_def)
  have h: "height (m_root ?t) = 3" by simp
  have mn: "\<forall>q :: int node_ptr. node_count q = 7 \<longrightarrow> height (m_root ?t) \<le> height q"
    using seven_nodes_height h by metis
  have sq: "insert_seq [4, 2, 6, 1, 3, 5, 7] empty_tree = Inr (replicate 7 True, ?t)"
    by (rule insert_seq_breadth_first)
  have sd: "insert_seq [4, 2, 1, 3, 6, 5, 7] empty_tree = Inr (replicate 7 True, ?t)"
    by (rule insert_seq_depth_first)
  from c rt sz h mn sq sd show ?thesis by blast
qed

theorem bulk_construction_of_seven_witness:
  "mset [7, 3, 1, 5, 2, 6, 4 :: int] = mset [1, 2, 3, 4, 5, 6, 7]
   \<and> array_construct [7, 3, 1, 5, 2, 6, 4 :: int]
       = Inr \<lparr>m_root = Node 4 (Node 6 (Node 7 nullptr nullptr) (Node 5 nullptr nullptr))
                              (Node 2 (Node 3 nullptr nullptr) (Node 1 nullptr nullptr)),
              m_size = 7\<rparr>"
proof -
  have m: "mset [7, 3, 1, 5, 2, 6, 4 :: int] = mset [1, 2, 3, 4, 5, 6, 7]" by simp
  from bulk_construction_of_seven [OF m] obtain t where
    "array_construct [7, 3, 1, 5, 2, 6, 4 :: int] = Inr t"
    "m_root t = Node 4 (Node 6 (Node 7 nullptr nullptr) (Node 5 nullptr nullptr))
                       (Node 2 (Node 3 nullptr nullptr) (Node 1 nullptr nullptr))"
    "size_bst t = 7"
    by blast
  then have "array_construct [7, 3, 1, 5, 2, 6, 4 :: int]
       = Inr \<lparr>m_root = Node 4 (Node 6 (Node 7 nullptr nullptr) (Node 5 nullptr nullptr))
                              (Node 2 (Node 3 nullptr nullptr) (Node 1 nullptr nullptr)),
              m_size = 7\<rparr>"
    by (cases t) (simp add: size_bst_def)
  with m show ?thesis by blast
qed

subsection \<open>Copy construction\<close>

lemma intact_fold_ins: "intact q \<Longrightarrow> intact (fold ins xs q)"
  by (induction xs arbitrary: q) (auto simp: intact_ins)

lemma elements_preorder: "intact p \<Longrightarrow> set (preorder p) = elements p"
  by (induction p) auto

lemma length_preorder: "length (preorder p) = node_count p"
  by (induction p) auto

lemma prefix_insert_fold:
  "intact p \<Longrightarrow> intact (m_root s) \<Longrightarrow> m_size s = node_count (m_root s) \<Longrightarrow>
   prefix_insert p s =
     Inr \<lparr>m_root = fold ins (preorder p) (m_root s),
          m_size = node_count (fold ins (preorder p) (m_root s))\<rparr>"
proof (induction p arbitrary: s)
  case nullptr
  then show ?case by simp
next
  case Dangling
  then show ?case by simp
next
  case (Node d r l)
  let ?s1 = "\<lparr>m_root = ins d (m_root s), m_size = node_count (ins d (m_root s))\<rparr>"
  let ?q2 = "fold ins (preorder l) (ins d (m_root s))"
  let ?s2 = "\<lparr>m_root = ?q2, m_size = node_count ?q2\<rparr>"
  have a: "insert_bst d s = Inr (\<not> found (m_root s) d, ?s1)"
    using Node.prems by (simp add: insert_bst_ins)
  have b: "prefix_insert l ?s1 = Inr ?s2"
    using Node.IH(2) [of ?s1] Node.prems by (simp add: intact_ins)
  have c: "prefix_insert r ?s2 =
      Inr \<lparr>m_root = fold ins (preorder r) ?q2, m_size = node_count (fold ins (preorder r) ?q2)\<rparr>"
    using Node.IH(1) [of ?s2] Node.prems by (simp add: intact_ins intact_fold_ins)
  show ?case using a b c by simp
qed

lemma insert_seq_append:
  "insert_seq (xs @ ys) s =
     (case insert_seq xs s of
        Inl e \<Rightarrow> Inl e
      | Inr (bs, t) \<Rightarrow>
          (case insert_seq ys t of
             Inl e \<Rightarrow> Inl e
           | Inr (bs', t') \<Rightarrow> Inr (bs @ bs', t')))"
  by (induction xs arbitrary: s) (auto split: sum.splits prod.splits)

lemma prefix_insert_seq:
  "intact p \<Longrightarrow>
   prefix_insert p s = (case insert_seq (preorder p) s of Inl e \<Rightarrow> Inl e | Inr (bs, t) \<Rightarrow> Inr t)"
  by (induction p arbitrary: s) (auto simp: insert_seq_append split: sum.splits prod.splits)

lemma fold_ins_below:
  "\<forall>x \<in> set xs. x < d \<Longrightarrow> fold ins xs (Node d r l) = Node d r (fold ins xs l)"
  by (induction xs arbitrary: l) auto

lemma fold_ins_above:
  "\<forall>x \<in> set xs. d < x \<Longrightarrow> fold ins xs (Node d r l) = Node d (fold ins xs r) l"
  by (induction xs arbitrary: r) auto

lemma fold_ins_preorder: "intact p \<Longrightarrow> ordered p \<Longrightarrow> fold ins (preorder p) nullptr = p"
proof (induction p)
  case (Node d r l)
  have "fold ins (preorder (Node d r l)) nullptr
      = fold ins (preorder r) (fold ins (preorder l) (Node d nullptr nullptr))"
    by simp
  also have "\<dots> = fold ins (preorder r) (Node d nullptr (fold ins (preorder l) nullptr))"
    using Node.prems by (simp add: fold_ins_below elements_preorder)
  also have "\<dots> = fold ins (preorder r) (Node d nullptr l)"
    using Node by simp
  also have "\<dots> = Node d (fold ins (preorder r) nullptr) l"
    using Node.prems by (simp add: fold_ins_above elements_preorder)
  also have "\<dots> = Node d r l"
    using Node by simp
  finally show ?case .
qed simp_all

lemma copy_construct_shape:
  assumes "intact (m_root t)" and "ordered (m_root t)"
  shows "copy_construct t = Inr \<lparr>m_root = m_root t, m_size = node_count (m_root t)\<rparr>"
  using assms prefix_insert_fold [of "m_root t" "\<lparr>m_root = nullptr, m_size = 0\<rparr>"]
  by (simp add: copy_construct_def fold_ins_preorder)

text \<open>
  Claim C8. The copy of a tree of the data model has the size of the original and answers
  \<^verbatim>\<open>contains\<close> as the original does, for every value. It is the tree that \<^verbatim>\<open>insert\<close>
  builds from the empty tree when called with the values of the original in pre-order.
\<close>

theorem copy_preserves_content:
  assumes "well_formed t"
  shows "\<exists>c. copy_construct t = Inr c
    \<and> size_bst c = size_bst t
    \<and> (\<forall>v. contains c v = contains t v)
    \<and> (\<exists>bs. insert_seq (preorder (m_root t)) empty_tree = Inr (bs, c))"
proof -
  from assms have i: "intact (m_root t)" and o: "ordered (m_root t)"
    and s: "m_size t = node_count (m_root t)"
    by (simp_all add: well_formed_def)
  let ?c = "\<lparr>m_root = m_root t, m_size = node_count (m_root t)\<rparr>"
  have c: "copy_construct t = Inr ?c" using i o by (rule copy_construct_shape)
  have "prefix_insert (m_root t) empty_tree = Inr ?c"
    using c by (simp add: copy_construct_def empty_tree_def)
  then have "\<exists>bs. insert_seq (preorder (m_root t)) empty_tree = Inr (bs, ?c)"
    using i by (auto simp: prefix_insert_seq split: sum.splits prod.splits)
  with c s show ?thesis by (simp add: size_bst_def contains_def)
qed

theorem copy_preserves_content_witness:
  "well_formed \<lparr>m_root = Node (4::int) (Node 6 nullptr nullptr) (Node 2 nullptr nullptr),
                m_size = 3\<rparr>
   \<and> copy_construct \<lparr>m_root = Node (4::int) (Node 6 nullptr nullptr) (Node 2 nullptr nullptr),
                      m_size = 3\<rparr>
       = Inr \<lparr>m_root = Node 4 (Node 6 nullptr nullptr) (Node 2 nullptr nullptr), m_size = 3\<rparr>
   \<and> insert_seq [4, 2, 6 :: int] empty_tree
       = Inr ([True, True, True],
              \<lparr>m_root = Node 4 (Node 6 nullptr nullptr) (Node 2 nullptr nullptr), m_size = 3\<rparr>)"
proof -
  let ?t = "\<lparr>m_root = Node (4::int) (Node 6 nullptr nullptr) (Node 2 nullptr nullptr),
             m_size = 3\<rparr>"
  have w: "well_formed ?t" by (simp add: well_formed_def)
  from w copy_preserves_content [OF w] show ?thesis
    by (simp add: copy_construct_def insert_bst_def empty_tree_def)
qed

text \<open>
  Claim C10. For an intact tree that satisfies the ordering invariant, copy construction
  rebuilds the original node for node, and \<^verbatim>\<open>operator==\<close> on the copy and the original
  returns true.
\<close>

theorem copy_equals_original:
  assumes "intact (m_root t)" and "ordered (m_root t)"
  shows "\<exists>c. copy_construct t = Inr c \<and> m_root c = m_root t \<and> equals c t = Inr True"
  using assms by (simp add: copy_construct_shape equals_def prefix_comp_refl)

theorem copy_equals_original_witness:
  "intact (Node (4::int) (Node 6 nullptr nullptr) (Node 2 nullptr nullptr))
   \<and> ordered (Node (4::int) (Node 6 nullptr nullptr) (Node 2 nullptr nullptr))
   \<and> copy_construct \<lparr>m_root = Node (4::int) (Node 6 nullptr nullptr) (Node 2 nullptr nullptr),
                      m_size = 3\<rparr>
       = Inr \<lparr>m_root = Node 4 (Node 6 nullptr nullptr) (Node 2 nullptr nullptr), m_size = 3\<rparr>
   \<and> equals \<lparr>m_root = Node (4::int) (Node 6 nullptr nullptr) (Node 2 nullptr nullptr), m_size = 3\<rparr>
             \<lparr>m_root = Node (4::int) (Node 6 nullptr nullptr) (Node 2 nullptr nullptr), m_size = 3\<rparr>
       = Inr True"
proof -
  let ?t = "\<lparr>m_root = Node (4::int) (Node 6 nullptr nullptr) (Node 2 nullptr nullptr),
             m_size = 3\<rparr>"
  have i: "intact (m_root ?t)" by simp
  have o: "ordered (m_root ?t)" by simp
  from i o copy_equals_original [OF i o] show ?thesis
    by (simp add: copy_construct_def insert_bst_def equals_def)
qed

end
